theory Spec2Isabelle
  imports Complex_Main "HOL-Library.Product_Lexorder"
begin

section \<open>Calendar dates\<close>

text \<open>
  A \<^verbatim>\<open>datetime.date\<close> is its (year, month, day) triple; Python compares dates
  chronologically, which is the lexicographic order of the triple.  Year bounds
  (\<^verbatim>\<open>MINYEAR\<close>, \<^verbatim>\<open>MAXYEAR\<close>) are not modelled.
\<close>

type_synonym date = "int \<times> nat \<times> nat"

definition year :: "date \<Rightarrow> int" where
  "year d = fst d"

definition month :: "date \<Rightarrow> nat" where
  "month d = fst (snd d)"

definition day :: "date \<Rightarrow> nat" where
  "day d = snd (snd d)"

definition isleap :: "int \<Rightarrow> bool" where
  "isleap y = (y mod 4 = 0 \<and> (y mod 100 \<noteq> 0 \<or> y mod 400 = 0))"

text \<open>The number of days of a month: the second component of \<^verbatim>\<open>monthrange(year, month)\<close>.\<close>

definition monthrange :: "int \<Rightarrow> nat \<Rightarrow> nat" where
  "monthrange y m =
     (if m = 2 then (if isleap y then 29 else 28)
      else if m = 4 \<or> m = 6 \<or> m = 9 \<or> m = 11 then 30 else 31)"

definition valid_date :: "date \<Rightarrow> bool" where
  "valid_date d = (1 \<le> month d \<and> month d \<le> 12 \<and> 1 \<le> day d \<and> day d \<le> monthrange (year d) (month d))"

text \<open>
  The two ends of the range as the script derives them: \<^verbatim>\<open>current_date.replace(day=1)\<close>,
  and the last day of the selected end month.
\<close>

definition start_of_current_month :: "date \<Rightarrow> date" where
  "start_of_current_month current_date = (year current_date, month current_date, 1)"

definition end_of_end_month :: "int \<Rightarrow> nat \<Rightarrow> date" where
  "end_of_end_month end_year end_month = (end_year, end_month, monthrange end_year end_month)"

text \<open>One step of the daily frequency \<^verbatim>\<open>freq='D'\<close>: the following calendar day.\<close>

definition next_day :: "date \<Rightarrow> date" where
  "next_day d =
     (if day d < monthrange (year d) (month d) then (year d, month d, day d + 1)
      else if month d < 12 then (year d, month d + 1, 1)
      else (year d + 1, 1, 1))"

text \<open>
  \<^verbatim>\<open>pd.date_range(start=s, end=e, freq='D')\<close>: every day from \<open>s\<close> to \<open>e\<close>, both
  included, in ascending order; empty when \<open>e\<close> is before \<open>s\<close>.
\<close>

function date_range :: "date \<Rightarrow> date \<Rightarrow> date list" where
  "date_range s e = (if e < s then [] else s # date_range (next_day s) e)"
  by pat_completeness auto
termination
proof (relation "measures [\<lambda>(s, e). nat (year e + 1 - year s),
                           \<lambda>(s, e). 12 - month s,
                           \<lambda>(s, e). 31 - day s]", goal_cases)
  case 1
  show ?case by simp
next
  case (2 s e)
  obtain y m d where s: "s = (y, m, d)" by (cases s) auto
  obtain y' m' d' where e: "e = (y', m', d')" by (cases e) auto
  from 2 have "y \<le> y'" by (auto simp: s e)
  then show ?case
    by (auto simp: s e next_day_def year_def month_def day_def monthrange_def)
qed

declare date_range.simps [simp del]

section \<open>Closed periods and the day table\<close>

text \<open>An entry of \<^verbatim>\<open>st.session_state.closed_periods\<close>: a dict with keys start, end, holidays.\<close>

record closed_period =
  pstart :: date
  pend :: date
  holidays :: "string list"

fun is_closed :: "date \<Rightarrow> closed_period list \<Rightarrow> bool" where
  "is_closed d [] = False"
| "is_closed d (period # closed_periods) =
     (if pstart period \<le> d \<and> d \<le> pend period then True else is_closed d closed_periods)"

text \<open>A row of the data frame \<^verbatim>\<open>df\<close> (the constant column seasonality_type is added on output).\<close>

record day_row =
  date :: date
  IsClosed :: bool
  IsTodayOrAfter :: bool

definition df :: "date \<Rightarrow> date \<Rightarrow> closed_period list \<Rightarrow> date \<Rightarrow> day_row list" where
  "df range_start range_end closed_periods current_date =
     map (\<lambda>d. \<lparr>date = d, IsClosed = is_closed d closed_periods, IsTodayOrAfter = (current_date \<le> d)\<rparr>)
         (date_range range_start range_end)"

definition remaining :: "date \<Rightarrow> date \<Rightarrow> closed_period list \<Rightarrow> date \<Rightarrow> day_row list" where
  "remaining range_start range_end closed_periods current_date =
     filter IsTodayOrAfter (df range_start range_end closed_periods current_date)"

text \<open>\<^verbatim>\<open>dt.to_period('M')\<close>: the calendar month of a date, ordered chronologically.\<close>

definition to_period_M :: "date \<Rightarrow> int \<times> nat" where
  "to_period_M d = (year d, month d)"

text \<open>
  \<^verbatim>\<open>remaining.groupby('month')\<close>: one group for each month that occurs, in ascending
  order of the month, each group holding its rows in their original order.
\<close>

definition groupby_month :: "day_row list \<Rightarrow> ((int \<times> nat) \<times> day_row list) list" where
  "groupby_month rows =
     map (\<lambda>k. (k, filter (\<lambda>r. to_period_M (date r) = k) rows))
         (sort (remdups (map (\<lambda>r. to_period_M (date r)) rows)))"

section \<open>The allocation of one month\<close>

text \<open>
  Percentages are \<^verbatim>\<open>float64\<close> in the program; here they are exact rationals, so the
  rounding of the floating-point operations is not part of the model.
\<close>

definition N :: "day_row list \<Rightarrow> nat" where
  "N grp = length (filter (\<lambda>r. \<not> IsClosed r) grp)"

definition C :: "day_row list \<Rightarrow> nat" where
  "C grp = length (filter IsClosed grp)"

definition N_plus_C :: "day_row list \<Rightarrow> nat" where
  "N_plus_C grp = (if N grp + C grp > 0 then N grp + C grp else 1)"

definition BasePercentage :: "day_row list \<Rightarrow> rat list" where
  "BasePercentage grp = map (\<lambda>r. if IsClosed r then 0 else 1 / of_nat (N_plus_C grp)) grp"

text \<open>\<^verbatim>\<open>reset_index\<close>: every row paired with its position in the group.\<close>

definition with_Index :: "day_row list \<Rightarrow> (nat \<times> day_row) list" where
  "with_Index grp = zip [0..<length grp] grp"

definition find_preceding_active_index :: "nat \<Rightarrow> day_row list \<Rightarrow> nat option" where
  "find_preceding_active_index current_idx df_group =
     (let preceding = filter (\<lambda>(i, r). i < current_idx \<and> \<not> IsClosed r) (with_Index df_group)
      in if preceding \<noteq> [] then Some (fst (last preceding)) else None)"

definition PrecedingActiveIndex :: "day_row list \<Rightarrow> nat option list" where
  "PrecedingActiveIndex grp =
     map (\<lambda>(i, r). if IsClosed r then find_preceding_active_index i grp else None) (with_Index grp)"

text \<open>The PrecedingActiveIndex values of the closed rows whose value is not null.\<close>

definition closed_days_with_preceding :: "day_row list \<Rightarrow> nat list" where
  "closed_days_with_preceding grp =
     map (\<lambda>(r, p). the p)
         (filter (\<lambda>(r, p). IsClosed r \<and> p \<noteq> None) (zip grp (PrecedingActiveIndex grp)))"

text \<open>\<^verbatim>\<open>groupby('PrecedingActiveIndex').size()\<close>: each key that occurs, ascending, with its count.\<close>

definition closed_days_grouped :: "day_row list \<Rightarrow> (nat \<times> nat) list" where
  "closed_days_grouped grp =
     map (\<lambda>k. (k, length (filter (\<lambda>p. p = k) (closed_days_with_preceding grp))))
         (sort (remdups (closed_days_with_preceding grp)))"

definition ExtraPercentage_grouped :: "day_row list \<Rightarrow> (nat \<times> rat) list" where
  "ExtraPercentage_grouped grp =
     map (\<lambda>(k, ClosedDaysCount). (k, of_nat ClosedDaysCount * (1 / of_nat (N_plus_C grp))))
         (closed_days_grouped grp)"

text \<open>The left merge on Index, followed by \<^verbatim>\<open>fillna(0)\<close>.\<close>

definition ExtraPercentage :: "day_row list \<Rightarrow> rat list" where
  "ExtraPercentage grp =
     map (\<lambda>(i, r). case map_of (ExtraPercentage_grouped grp) i of None \<Rightarrow> 0 | Some x \<Rightarrow> x)
         (with_Index grp)"

definition FinalPercentage :: "day_row list \<Rightarrow> rat list" where
  "FinalPercentage grp = map (\<lambda>(b, x). b + x) (zip (BasePercentage grp) (ExtraPercentage grp))"

definition percentage_col :: "day_row list \<Rightarrow> rat list" where
  "percentage_col grp =
     map (\<lambda>(r, f). if IsClosed r then 0 else f) (zip grp (FinalPercentage grp))"

text \<open>\<^verbatim>\<open>np.isclose(a, b)\<close> with numpy's default tolerances rtol = 1e-5 and atol = 1e-8.\<close>

definition isclose :: "rat \<Rightarrow> rat \<Rightarrow> bool" where
  "isclose a b = (\<bar>a - b\<bar> \<le> 1 / 10 ^ 8 + (1 / 10 ^ 5) * \<bar>b\<bar>)"

definition total_percentage :: "day_row list \<Rightarrow> rat" where
  "total_percentage grp = sum_list (percentage_col grp)"

text \<open>The positions of \<^verbatim>\<open>month_final[month_final['percentage'] > 0]\<close>.\<close>

definition active_days :: "day_row list \<Rightarrow> nat list" where
  "active_days grp =
     filter (\<lambda>i. percentage_col grp ! i > 0) [0..<length (percentage_col grp)]"

definition adjusted :: "day_row list \<Rightarrow> rat list" where
  "adjusted grp =
     (if \<not> isclose (total_percentage grp) 1 then
        (let adjustment = 1 - total_percentage grp in
         if active_days grp \<noteq> [] then
           (let first_active_idx = hd (active_days grp) in
            (percentage_col grp)
              [first_active_idx := percentage_col grp ! first_active_idx + adjustment])
         else percentage_col grp)
      else percentage_col grp)"

record out_row =
  seasonality_type :: string
  odate :: date
  percentage :: rat

definition month_final :: "day_row list \<Rightarrow> out_row list" where
  "month_final grp =
     map (\<lambda>(r, p). \<lparr>seasonality_type = ''Fair share'', odate = date r, percentage = p\<rparr>)
         (zip grp (adjusted grp))"

section \<open>The whole range\<close>

text \<open>
  The block guarded by \<^verbatim>\<open>end_of_end_month >= start_of_current_month\<close>, as a function of
  the four values it reads: the two ends of the generated date range, the closed periods
  and the current date.  Otherwise the script only shows an information message.
\<close>

datatype message = Info_set_end_month

definition final_df ::
  "date \<Rightarrow> date \<Rightarrow> closed_period list \<Rightarrow> date \<Rightarrow> message + out_row list" where
  "final_df range_start range_end closed_periods current_date =
     (if range_end \<ge> range_start then
        Inr (concat (map (\<lambda>(month, grp). month_final grp)
               (groupby_month (remaining range_start range_end closed_periods current_date))))
      else Inl Info_set_end_month)"

section \<open>Notions of the specification\<close>

text \<open>
  The nearest preceding open day of position \<open>j\<close>, found by scanning backward in date order
  from the day before \<open>j\<close>; and the number of closed days of the group whose nearest
  preceding open day is position \<open>i\<close>.
\<close>

fun nearest_preceding_open :: "day_row list \<Rightarrow> nat \<Rightarrow> nat option" where
  "nearest_preceding_open g 0 = None"
| "nearest_preceding_open g (Suc j) =
     (if \<not> IsClosed (g ! j) then Some j else nearest_preceding_open g j)"

definition rolled_onto :: "day_row list \<Rightarrow> nat \<Rightarrow> nat" where
  "rolled_onto g i =
     length (filter (\<lambda>j. IsClosed (g ! j) \<and> nearest_preceding_open g j = Some i) [0..<length g])"

text \<open>The share of position \<open>i\<close> before the correction, counted in base units.\<close>

definition units :: "day_row list \<Rightarrow> nat \<Rightarrow> nat" where
  "units g i = (if IsClosed (g ! i) then 0 else 1 + rolled_onto g i)"


section \<open>The calendar and the date range\<close>

lemma monthrange_bounds: "28 \<le> monthrange y m \<and> monthrange y m \<le> 31"
  by (simp add: monthrange_def)

lemma next_day_greater: "d < next_day d"
  by (cases d) (simp add: next_day_def year_def month_def day_def)

lemma valid_next_day: "valid_date d \<Longrightarrow> valid_date (next_day d)"
  using monthrange_bounds [of "year d" "month d"] monthrange_bounds [of "year d" "month d + 1"]
    monthrange_bounds [of "year d + 1" 1]
  by (auto simp: valid_date_def next_day_def year_def month_def day_def)

lemma next_day_least:
  assumes "valid_date d" "valid_date x" "d < x"
  shows "next_day d \<le> x"
proof -
  obtain y m k where d: "d = (y, m, k)" by (cases d) auto
  obtain y' m' k' where x: "x = (y', m', k')" by (cases x) auto
  from assms(3) have "y < y' \<or> (y = y' \<and> m < m') \<or> (y = y' \<and> m = m' \<and> k < k')"
    unfolding d x less_prod_def' by auto
  then consider (a) "y < y'" | (b) "y = y'" "m < m'" | (c) "y = y'" "m = m'" "k < k'"
    by blast
  then show ?thesis
  proof cases
    case a
    with assms(2) show ?thesis
      by (auto simp: d x valid_date_def next_day_def year_def month_def day_def)
  next
    case b
    with assms(1,2) show ?thesis
      by (auto simp: d x valid_date_def next_day_def year_def month_def day_def)
  next
    case c
    with assms(1,2) show ?thesis
      by (auto simp: d x valid_date_def next_day_def year_def month_def day_def)
  qed
qed

lemma date_range_lower: "x \<in> set (date_range s e) \<Longrightarrow> s \<le> x"
proof (induction s e rule: date_range.induct)
  case (1 s e)
  show ?case
  proof (cases "e < s")
    case True
    with 1(2) show ?thesis by (simp add: date_range.simps [of s e])
  next
    case False
    with 1(2) have "x = s \<or> x \<in> set (date_range (next_day s) e)"
      by (simp add: date_range.simps [of s e])
    then show ?thesis
    proof
      assume "x = s" then show ?thesis by simp
    next
      assume "x \<in> set (date_range (next_day s) e)"
      with 1(1) False have "next_day s \<le> x" by simp
      with next_day_greater [of s] show ?thesis by (meson less_le_trans less_imp_le)
    qed
  qed
qed

lemma date_range_upper: "x \<in> set (date_range s e) \<Longrightarrow> x \<le> e"
proof (induction s e rule: date_range.induct)
  case (1 s e)
  show ?case
  proof (cases "e < s")
    case True
    with 1(2) show ?thesis by (simp add: date_range.simps [of s e])
  next
    case False
    with 1(2) have "x = s \<or> x \<in> set (date_range (next_day s) e)"
      by (simp add: date_range.simps [of s e])
    with 1(1) False show ?thesis by auto
  qed
qed

lemma date_range_valid: "valid_date s \<Longrightarrow> x \<in> set (date_range s e) \<Longrightarrow> valid_date x"
proof (induction s e rule: date_range.induct)
  case (1 s e)
  show ?case
  proof (cases "e < s")
    case True
    with 1(3) show ?thesis by (simp add: date_range.simps [of s e])
  next
    case False
    with 1(3) have "x = s \<or> x \<in> set (date_range (next_day s) e)"
      by (simp add: date_range.simps [of s e])
    with 1(1) [OF False valid_next_day [OF 1(2)]] 1(2) show ?thesis by auto
  qed
qed

lemma date_range_sorted: "sorted_wrt (<) (date_range s e)"
proof (induction s e rule: date_range.induct)
  case (1 s e)
  show ?case
  proof (cases "e < s")
    case True
    then show ?thesis by (simp add: date_range.simps [of s e])
  next
    case False
    have "\<forall>x \<in> set (date_range (next_day s) e). s < x"
      using date_range_lower [of _ "next_day s" e] next_day_greater [of s]
      by (meson less_le_trans)
    with 1 False show ?thesis by (simp add: date_range.simps [of s e])
  qed
qed

lemma date_range_complete:
  "valid_date s \<Longrightarrow> valid_date x \<Longrightarrow> s \<le> x \<Longrightarrow> x \<le> e \<Longrightarrow> x \<in> set (date_range s e)"
proof (induction s e rule: date_range.induct)
  case (1 s e)
  from 1(4,5) have ne: "\<not> e < s" by auto
  show ?case
  proof (cases "x = s")
    case True
    with ne show ?thesis by (simp add: date_range.simps [of s e])
  next
    case False
    with 1(4) have "s < x" by simp
    then have "next_day s \<le> x" using next_day_least 1(2,3) by blast
    with 1(1) [OF ne valid_next_day [OF 1(2)] 1(3)] 1(5)
    have "x \<in> set (date_range (next_day s) e)" by simp
    with ne show ?thesis by (simp add: date_range.simps [of s e])
  qed
qed

lemma date_range_set:
  "valid_date s \<Longrightarrow> set (date_range s e) = {d. valid_date d \<and> s \<le> d \<and> d \<le> e}"
  using date_range_lower date_range_upper date_range_valid date_range_complete by blast

lemma date_range_filter:
  "valid_date s \<Longrightarrow> valid_date c \<Longrightarrow> s \<le> c \<Longrightarrow>
     filter (\<lambda>d. c \<le> d) (date_range s e) = date_range c e"
proof (induction s e rule: date_range.induct)
  case (1 s e)
  show ?case
  proof (cases "e < s")
    case True
    with 1(4) have "e < c" by auto
    with True show ?thesis by (simp add: date_range.simps [of s e] date_range.simps [of c e])
  next
    case ne: False
    show ?thesis
    proof (cases "c = s")
      case True
      have "\<forall>x \<in> set (date_range s e). s \<le> x" using date_range_lower by blast
      then have "filter (\<lambda>d. s \<le> d) (date_range s e) = date_range s e" by simp
      with True show ?thesis by simp
    next
      case False
      with 1(4) have lt: "s < c" by simp
      then have "next_day s \<le> c" using next_day_least 1(2,3) by blast
      with 1(1) [OF ne valid_next_day [OF 1(2)] 1(3)]
      have "filter (\<lambda>d. c \<le> d) (date_range (next_day s) e) = date_range c e" by simp
      with ne lt show ?thesis by (simp add: date_range.simps [of s e])
    qed
  qed
qed

section \<open>Month groups\<close>

lemma filter_split_sorted:
  fixes f :: "'a \<Rightarrow> 'k::linorder"
  assumes "sorted (map f xs)" "\<forall>a\<in>A. \<forall>b\<in>B. a < b"
  shows "filter (\<lambda>r. f r \<in> A) xs @ filter (\<lambda>r. f r \<in> B) xs = filter (\<lambda>r. f r \<in> A \<union> B) xs"
  using assms(1)
proof (induction xs)
  case Nil
  show ?case by simp
next
  case (Cons x xs)
  then have IH: "filter (\<lambda>r. f r \<in> A) xs @ filter (\<lambda>r. f r \<in> B) xs = filter (\<lambda>r. f r \<in> A \<union> B) xs"
    and le: "\<forall>r\<in>set xs. f x \<le> f r" by auto
  show ?case
  proof (cases "f x \<in> A")
    case True
    with assms(2) have "f x \<notin> B" by (meson less_irrefl)
    with True IH show ?thesis by simp
  next
    case notA: False
    show ?thesis
    proof (cases "f x \<in> B")
      case True
      have "\<forall>r\<in>set xs. f r \<notin> A"
      proof
        fix r assume "r \<in> set xs"
        with le have "f x \<le> f r" by blast
        with True assms(2) show "f r \<notin> A" by (meson not_le)
      qed
      then have "filter (\<lambda>r. f r \<in> A) xs = []" by (simp add: filter_empty_conv)
      with IH notA True show ?thesis by simp
    next
      case False
      with notA IH show ?thesis by simp
    qed
  qed
qed

lemma concat_groups_sorted:
  fixes f :: "'a \<Rightarrow> 'k::linorder"
  assumes "sorted (map f xs)"
  shows "sorted_wrt (<) ks \<Longrightarrow>
    concat (map (\<lambda>k. filter (\<lambda>r. f r = k) xs) ks) = filter (\<lambda>r. f r \<in> set ks) xs"
proof (induction ks)
  case Nil
  show ?case by simp
next
  case (Cons k ks)
  then have IH: "concat (map (\<lambda>k. filter (\<lambda>r. f r = k) xs) ks) = filter (\<lambda>r. f r \<in> set ks) xs"
    and lt: "\<forall>a\<in>{k}. \<forall>b\<in>set ks. a < b" by auto
  from filter_split_sorted [OF assms lt] IH show ?case by simp
qed

lemma groupby_month_keys:
  "map fst (groupby_month rows) = sort (remdups (map (\<lambda>r. to_period_M (date r)) rows))"
  by (simp add: groupby_month_def comp_def)

lemma groupby_month_keys_sorted: "sorted_wrt (<) (map fst (groupby_month rows))"
  unfolding groupby_month_keys by (simp add: strict_sorted_iff)

lemma groupby_month_member:
  "(k, g) \<in> set (groupby_month rows) \<longleftrightarrow>
     k \<in> (\<lambda>r. to_period_M (date r)) ` set rows \<and> g = filter (\<lambda>r. to_period_M (date r) = k) rows"
  by (auto simp: groupby_month_def)

lemma groupby_month_nonempty: "(k, g) \<in> set (groupby_month rows) \<Longrightarrow> g \<noteq> []"
  by (auto simp: groupby_month_member filter_empty_conv)

lemma groupby_month_concat:
  assumes "sorted (map (\<lambda>r. to_period_M (date r)) rows)"
  shows "concat (map snd (groupby_month rows)) = rows"
proof -
  let ?ks = "sort (remdups (map (\<lambda>r. to_period_M (date r)) rows))"
  have "sorted_wrt (<) ?ks" by (simp add: strict_sorted_iff)
  from concat_groups_sorted [OF assms this]
  have "concat (map (\<lambda>k. filter (\<lambda>r. to_period_M (date r) = k) rows) ?ks) = rows"
    by simp
  then show ?thesis by (simp add: groupby_month_def comp_def)
qed

lemma to_period_M_mono: "d \<le> d' \<Longrightarrow> to_period_M d \<le> to_period_M d'"
  by (cases d, cases d') (auto simp: to_period_M_def year_def month_def)

lemma remaining_dates:
  "map date (remaining s e cps cur) = filter (\<lambda>d. cur \<le> d) (date_range s e)"
  by (simp add: remaining_def df_def filter_map comp_def)

lemma remaining_dates_sorted: "sorted_wrt (<) (map date (remaining s e cps cur))"
  unfolding remaining_dates using date_range_sorted sorted_wrt_filter by blast

lemma remaining_keys_sorted:
  "sorted (map (\<lambda>r. to_period_M (date r)) (remaining s e cps cur))"
proof -
  have "sorted_wrt (\<lambda>a b. to_period_M a \<le> to_period_M b) (map date (remaining s e cps cur))"
    using remaining_dates_sorted [of s e cps cur]
    by (rule sorted_wrt_mono_rel [rotated]) (simp add: to_period_M_mono)
  then show ?thesis by (simp add: sorted_wrt_map sorted_map)
qed

lemma remaining_IsClosed:
  "r \<in> set (remaining s e cps cur) \<Longrightarrow> IsClosed r = is_closed (date r) cps"
  by (auto simp: remaining_def df_def)

lemma remaining_valid:
  "valid_date s \<Longrightarrow> r \<in> set (remaining s e cps cur) \<Longrightarrow> valid_date (date r)"
proof -
  assume v: "valid_date s" and r: "r \<in> set (remaining s e cps cur)"
  from r have "date r \<in> set (map date (remaining s e cps cur))" by simp
  then have "date r \<in> set (date_range s e)" unfolding remaining_dates by simp
  with v show ?thesis by (rule date_range_valid)
qed

lemma month_group_length:
  assumes "valid_date s" "(k, g) \<in> set (groupby_month (remaining s e cps cur))"
  shows "length g \<le> 31"
proof -
  let ?rows = "remaining s e cps cur"
  from assms(2) have g: "g = filter (\<lambda>r. to_period_M (date r) = k) ?rows"
    by (simp add: groupby_month_member)
  have "distinct (map date ?rows)"
    using remaining_dates_sorted [of s e cps cur] by (simp add: strict_sorted_iff)
  then have dg: "distinct (map date g)" unfolding g by (simp add: distinct_map_filter)
  have inj: "inj_on day (set (map date g))"
  proof (rule inj_onI)
    fix a b assume "a \<in> set (map date g)" "b \<in> set (map date g)" "day a = day b"
    then have "to_period_M a = k" "to_period_M b = k" "day a = day b" by (auto simp: g)
    then show "a = b"
      by (cases a, cases b) (auto simp: to_period_M_def year_def month_def day_def)
  qed
  from dg inj have "distinct (map day (map date g))"
    using distinct_map [of day "map date g"] by blast
  then have "length g = card (set (map day (map date g)))"
    using distinct_card [of "map day (map date g)"] by simp
  also have "set (map day (map date g)) \<subseteq> {1..31}"
  proof
    fix n assume "n \<in> set (map day (map date g))"
    then obtain r where "r \<in> set ?rows" "n = day (date r)" by (auto simp: g)
    with remaining_valid [OF assms(1)] have "valid_date (date r)" "n = day (date r)" by auto
    with monthrange_bounds [of "year (date r)" "month (date r)"] show "n \<in> {1..31}"
      by (simp add: valid_date_def)
  qed
  then have "card (set (map day (map date g))) \<le> card {1..31::nat}"
    by (rule card_mono [rotated]) simp
  finally show ?thesis by simp
qed

section \<open>The columns of one month\<close>

lemma zip_upt_nth: "zip [0..<length xs] xs = map (\<lambda>i. (i, xs ! i)) [0..<length xs]"
  by (rule nth_equalityI) simp_all

lemma zip_nth_upt: "length ys = length xs \<Longrightarrow> zip xs ys = map (\<lambda>i. (xs ! i, ys ! i)) [0..<length xs]"
  by (rule nth_equalityI) simp_all

lemma with_Index_nth: "with_Index g = map (\<lambda>i. (i, g ! i)) [0..<length g]"
  unfolding with_Index_def by (rule zip_upt_nth)

lemma N_plus_C_length: "N g + C g = length g"
  unfolding N_def C_def using sum_length_filter_compl [of IsClosed g] by simp

lemma N_plus_C_nonempty: "g \<noteq> [] \<Longrightarrow> N_plus_C g = length g"
  by (simp add: N_plus_C_def N_plus_C_length)

lemma filter_upt_less:
  "j \<le> n \<Longrightarrow> filter (\<lambda>i. i < j \<and> P i) [0..<n] = filter P [0..<j]"
proof (induction n)
  case 0
  then show ?case by simp
next
  case (Suc n)
  show ?case
  proof (cases "j = Suc n")
    case True
    have "filter (\<lambda>i. i < Suc n \<and> P i) [0..<Suc n] = filter P [0..<Suc n]"
      by (rule filter_cong) auto
    with True show ?thesis by simp
  next
    case False
    with Suc.prems have "j \<le> n" by simp
    with Suc.IH show ?thesis by simp
  qed
qed

lemma find_preceding_conv:
  assumes "j \<le> length g"
  shows "find_preceding_active_index j g =
     (let ops = filter (\<lambda>i. \<not> IsClosed (g ! i)) [0..<j]
      in if ops \<noteq> [] then Some (last ops) else None)"
proof -
  have "filter (\<lambda>(i, r). i < j \<and> \<not> IsClosed r) (with_Index g) =
        map (\<lambda>i. (i, g ! i)) (filter (\<lambda>i. i < j \<and> \<not> IsClosed (g ! i)) [0..<length g])"
    by (simp add: with_Index_nth filter_map comp_def)
  also have "\<dots> = map (\<lambda>i. (i, g ! i)) (filter (\<lambda>i. \<not> IsClosed (g ! i)) [0..<j])"
    using filter_upt_less [OF assms, of "\<lambda>i. \<not> IsClosed (g ! i)"] by simp
  finally show ?thesis
    by (simp add: find_preceding_active_index_def Let_def last_map)
qed

lemma find_preceding_scan:
  "j \<le> length g \<Longrightarrow> find_preceding_active_index j g = nearest_preceding_open g j"
proof (induction j)
  case 0
  then show ?case by (simp add: find_preceding_conv)
next
  case (Suc j)
  then have IH: "find_preceding_active_index j g = nearest_preceding_open g j" by simp
  from Suc.prems have j: "j \<le> length g" by simp
  from IH have "nearest_preceding_open g j =
     (if filter (\<lambda>i. \<not> IsClosed (g ! i)) [0..<j] \<noteq> []
      then Some (last (filter (\<lambda>i. \<not> IsClosed (g ! i)) [0..<j])) else None)"
    by (simp add: find_preceding_conv [OF j] Let_def)
  then show ?case
    by (simp add: find_preceding_conv [OF Suc.prems] Let_def)
qed

lemma PrecedingActiveIndex_conv:
  "PrecedingActiveIndex g =
     map (\<lambda>i. if IsClosed (g ! i) then nearest_preceding_open g i else None) [0..<length g]"
  unfolding PrecedingActiveIndex_def with_Index_nth
  by (simp add: find_preceding_scan)

lemma closed_days_with_preceding_conv:
  "closed_days_with_preceding g =
     map (\<lambda>i. the (nearest_preceding_open g i))
       (filter (\<lambda>i. IsClosed (g ! i) \<and> nearest_preceding_open g i \<noteq> None) [0..<length g])"
proof -
  have len: "length (PrecedingActiveIndex g) = length g"
    by (simp add: PrecedingActiveIndex_conv)
  have "zip g (PrecedingActiveIndex g) =
        map (\<lambda>i. (g ! i, if IsClosed (g ! i) then nearest_preceding_open g i else None)) [0..<length g]"
    unfolding zip_nth_upt [OF len] by (simp add: PrecedingActiveIndex_conv)
  moreover have "map (\<lambda>(r, p). the p)
          (filter (\<lambda>(r, p). IsClosed r \<and> p \<noteq> None)
             (map (\<lambda>i. (g ! i, if IsClosed (g ! i) then nearest_preceding_open g i else None)) xs)) =
        map (\<lambda>i. the (nearest_preceding_open g i))
          (filter (\<lambda>i. IsClosed (g ! i) \<and> nearest_preceding_open g i \<noteq> None) xs)" for xs
    by (induction xs) auto
  ultimately show ?thesis
    unfolding closed_days_with_preceding_def by simp
qed

lemma count_closed_days:
  "length (filter (\<lambda>p. p = i) (closed_days_with_preceding g)) = rolled_onto g i"
proof -
  have "(\<lambda>j. (IsClosed (g ! j) \<and> nearest_preceding_open g j \<noteq> None) \<and> the (nearest_preceding_open g j) = i)
      = (\<lambda>j. IsClosed (g ! j) \<and> nearest_preceding_open g j = Some i)"
    by auto
  then show ?thesis
    by (simp add: closed_days_with_preceding_conv rolled_onto_def filter_map comp_def)
qed

lemma map_of_graph:
  "map_of (map (\<lambda>k. (k, h k)) ks) i = (if i \<in> set ks then Some (h i) else None)"
  by (induction ks) auto

lemma ExtraPercentage_conv:
  "ExtraPercentage g =
     map (\<lambda>i. of_nat (rolled_onto g i) * (1 / of_nat (N_plus_C g))) [0..<length g]"
proof -
  let ?keys = "closed_days_with_preceding g"
  have grouped: "ExtraPercentage_grouped g =
      map (\<lambda>k. (k, of_nat (rolled_onto g k) * (1 / of_nat (N_plus_C g)))) (sort (remdups ?keys))"
    by (simp add: ExtraPercentage_grouped_def closed_days_grouped_def count_closed_days)
  have zero: "rolled_onto g i = 0" if "i \<notin> set ?keys" for i
  proof -
    from that have "filter (\<lambda>p. p = i) ?keys = []" by (auto simp: filter_empty_conv)
    then show ?thesis using count_closed_days [of i g] by simp
  qed
  show ?thesis
    unfolding ExtraPercentage_def with_Index_nth grouped
    by (simp add: map_of_graph zero)
qed

lemma BasePercentage_conv:
  "BasePercentage g = map (\<lambda>i. if IsClosed (g ! i) then 0 else 1 / of_nat (N_plus_C g)) [0..<length g]"
  unfolding BasePercentage_def by (rule nth_equalityI) simp_all

lemma FinalPercentage_conv:
  "FinalPercentage g =
     map (\<lambda>i. (if IsClosed (g ! i) then 0 else 1 / of_nat (N_plus_C g))
              + of_nat (rolled_onto g i) * (1 / of_nat (N_plus_C g))) [0..<length g]"
  unfolding FinalPercentage_def
  by (rule nth_equalityI) (simp_all add: BasePercentage_conv ExtraPercentage_conv)

lemma percentage_col_conv:
  "percentage_col g =
     map (\<lambda>i. if IsClosed (g ! i) then 0
              else 1 / of_nat (N_plus_C g) + of_nat (rolled_onto g i) * (1 / of_nat (N_plus_C g)))
         [0..<length g]"
  unfolding percentage_col_def
  by (rule nth_equalityI) (simp_all add: FinalPercentage_conv)

lemma length_percentage_col [simp]: "length (percentage_col g) = length g"
  by (simp add: percentage_col_conv)

lemma length_adjusted [simp]: "length (adjusted g) = length g"
  by (simp add: adjusted_def Let_def)

section \<open>The total and the correction\<close>

lemma percentage_col_units:
  "percentage_col g = map (\<lambda>i. of_nat (units g i) / of_nat (N_plus_C g)) [0..<length g]"
  unfolding percentage_col_conv units_def
  by (rule map_cong) (simp_all add: add_divide_distrib)

lemma sum_list_of_nat_divide:
  "sum_list (map (\<lambda>i. of_nat (f i) / (d::rat)) xs) = of_nat (sum_list (map f xs)) / d"
  by (induction xs) (simp_all add: add_divide_distrib)

lemma total_percentage_units:
  "total_percentage g = of_nat (sum_list (map (units g) [0..<length g])) / of_nat (N_plus_C g)"
  unfolding total_percentage_def percentage_col_units by (rule sum_list_of_nat_divide)

lemma ratio_far_from_one:
  fixes K n :: nat
  assumes "0 < n" "K \<noteq> n"
  shows "1 / of_nat n \<le> \<bar>of_nat K / of_nat n - (1::rat)\<bar>"
proof -
  from assms(1) have n0: "(of_nat n :: rat) > 0" by simp
  have "of_nat K / of_nat n - (1::rat) = (of_nat K - of_nat n) / of_nat n"
    using n0 by (simp add: field_simps)
  then have eq: "\<bar>of_nat K / of_nat n - (1::rat)\<bar> = \<bar>of_nat K - of_nat n\<bar> / of_nat n"
    using n0 by (simp add: abs_divide)
  have "(1::rat) \<le> \<bar>of_nat K - of_nat n\<bar>"
  proof (cases "K < n")
    case True
    then have "Suc K \<le> n" by simp
    then have "(of_nat (Suc K) :: rat) \<le> of_nat n" using of_nat_le_iff by blast
    then show ?thesis by simp
  next
    case False
    with assms(2) have "Suc n \<le> K" by simp
    then have "(of_nat (Suc n) :: rat) \<le> of_nat K" using of_nat_le_iff by blast
    then show ?thesis by simp
  qed
  then have "1 / of_nat n \<le> \<bar>of_nat K - of_nat n\<bar> / (of_nat n :: rat)"
    using n0 by (simp add: divide_right_mono)
  with eq show ?thesis by simp
qed

lemma one_over_le_31:
  fixes n :: nat
  assumes "0 < n" "n \<le> 31"
  shows "(1::rat) / 31 \<le> 1 / of_nat n"
proof -
  from assms(2) have "(of_nat n :: rat) \<le> of_nat 31" using of_nat_le_iff by blast
  with assms(1) show ?thesis by (simp add: frac_le)
qed

lemma isclose_ratio:
  fixes K n :: nat
  assumes "0 < n" "n \<le> 31"
  shows "isclose (of_nat K / of_nat n) 1 \<longleftrightarrow> K = n"
proof
  assume c: "isclose (of_nat K / of_nat n) 1"
  show "K = n"
  proof (rule ccontr)
    assume "K \<noteq> n"
    from ratio_far_from_one [OF assms(1) this] one_over_le_31 [OF assms]
    have "(1::rat) / 31 \<le> \<bar>of_nat K / of_nat n - 1\<bar>" by simp
    with c show False by (simp add: isclose_def)
  qed
next
  assume "K = n"
  with assms(1) show "isclose (of_nat K / of_nat n) 1" by (simp add: isclose_def)
qed

lemma within_tolerance_ratio:
  fixes K n :: nat
  assumes "0 < n" "n \<le> 31"
  shows "\<bar>of_nat K / of_nat n - (1::rat)\<bar> \<le> 1 / 10 ^ 9 \<longleftrightarrow> K = n"
proof
  assume c: "\<bar>of_nat K / of_nat n - (1::rat)\<bar> \<le> 1 / 10 ^ 9"
  show "K = n"
  proof (rule ccontr)
    assume "K \<noteq> n"
    from ratio_far_from_one [OF assms(1) this] one_over_le_31 [OF assms]
    have "(1::rat) / 31 \<le> \<bar>of_nat K / of_nat n - 1\<bar>" by simp
    with c show False by simp
  qed
next
  assume "K = n"
  with assms(1) show "\<bar>of_nat K / of_nat n - (1::rat)\<bar> \<le> 1 / 10 ^ 9" by simp
qed

lemma isclose_total:
  assumes "g \<noteq> []" "length g \<le> 31"
  shows "isclose (total_percentage g) 1 \<longleftrightarrow> total_percentage g = 1"
    and "\<bar>total_percentage g - 1\<bar> \<le> 1 / 10 ^ 9 \<longleftrightarrow> total_percentage g = 1"
proof -
  let ?K = "sum_list (map (units g) [0..<length g])"
  from assms have n: "0 < length g" "length g \<le> 31" by simp_all
  have t: "total_percentage g = of_nat ?K / of_nat (length g)"
    by (simp add: total_percentage_units N_plus_C_nonempty [OF assms(1)])
  have one: "of_nat ?K / (of_nat (length g) :: rat) = 1 \<longleftrightarrow> ?K = length g"
    using n(1) by auto
  show "isclose (total_percentage g) 1 \<longleftrightarrow> total_percentage g = 1"
    unfolding t using isclose_ratio [OF n] one by blast
  show "\<bar>total_percentage g - 1\<bar> \<le> 1 / 10 ^ 9 \<longleftrightarrow> total_percentage g = 1"
    unfolding t using within_tolerance_ratio [OF n] one by blast
qed

lemma percentage_col_nth:
  "i < length g \<Longrightarrow> percentage_col g ! i =
     (if IsClosed (g ! i) then 0
      else 1 / of_nat (N_plus_C g) + of_nat (rolled_onto g i) * (1 / of_nat (N_plus_C g)))"
  by (simp add: percentage_col_conv)

lemma N_plus_C_pos: "0 < N_plus_C g"
  by (simp add: N_plus_C_def)

lemma percentage_col_pos:
  assumes "i < length g"
  shows "percentage_col g ! i > 0 \<longleftrightarrow> \<not> IsClosed (g ! i)"
proof (cases "IsClosed (g ! i)")
  case True
  with assms show ?thesis by (simp add: percentage_col_nth)
next
  case False
  have "(0::rat) < 1 / of_nat (N_plus_C g)" using N_plus_C_pos [of g] by simp
  moreover have "(0::rat) \<le> of_nat (rolled_onto g i) * (1 / of_nat (N_plus_C g))" by simp
  ultimately have "(0::rat) < 1 / of_nat (N_plus_C g) + of_nat (rolled_onto g i) * (1 / of_nat (N_plus_C g))"
    by (rule add_pos_nonneg)
  with False assms show ?thesis by (simp add: percentage_col_nth)
qed

lemma active_days_open:
  "active_days g = filter (\<lambda>i. \<not> IsClosed (g ! i)) [0..<length g]"
  unfolding active_days_def length_percentage_col
  by (rule filter_cong) (simp_all add: percentage_col_pos)

lemma hd_filter_upt:
  assumes "filter P [0..<n] \<noteq> []"
  shows "hd (filter P [0..<n]) < n \<and> P (hd (filter P [0..<n])) \<and> (\<forall>j < hd (filter P [0..<n]). \<not> P j)"
proof -
  let ?xs = "filter P [0..<n]"
  from assms have "hd ?xs \<in> set ?xs" by (rule hd_in_set)
  then have a: "hd ?xs < n" "P (hd ?xs)" by auto
  have s: "sorted ?xs" by (simp add: sorted_wrt_filter)
  have "\<not> P j" if "j < hd ?xs" for j
  proof
    assume "P j"
    with that a(1) have "j \<in> set ?xs" by simp
    moreover from assms obtain y ys where "?xs = y # ys" by (cases ?xs) auto
    ultimately have "hd ?xs \<le> j" using s by auto
    with that show False by simp
  qed
  with a show ?thesis by blast
qed

lemma active_days_nonempty: "active_days g \<noteq> [] \<longleftrightarrow> (\<exists>r\<in>set g. \<not> IsClosed r)"
proof
  assume "active_days g \<noteq> []"
  then obtain i where "i < length g" "\<not> IsClosed (g ! i)"
    by (auto simp: active_days_open filter_empty_conv)
  then show "\<exists>r\<in>set g. \<not> IsClosed r" using nth_mem by blast
next
  assume "\<exists>r\<in>set g. \<not> IsClosed r"
  then obtain i where "i < length g" "\<not> IsClosed (g ! i)"
    by (auto simp: in_set_conv_nth)
  then have "i \<in> set (filter (\<lambda>i. \<not> IsClosed (g ! i)) [0..<length g])" by simp
  then show "active_days g \<noteq> []" unfolding active_days_open by (metis empty_iff empty_set)
qed

lemma first_active:
  assumes "\<exists>r\<in>set g. \<not> IsClosed r"
  shows "hd (active_days g) < length g \<and> \<not> IsClosed (g ! hd (active_days g)) \<and>
    (\<forall>j < hd (active_days g). IsClosed (g ! j))"
proof -
  from assms have "active_days g \<noteq> []" by (simp only: active_days_nonempty)
  then have ne: "filter (\<lambda>i. \<not> IsClosed (g ! i)) [0..<length g] \<noteq> []"
    unfolding active_days_open .
  have "hd (filter (\<lambda>i. \<not> IsClosed (g ! i)) [0..<length g]) < length g \<and>
     \<not> IsClosed (g ! hd (filter (\<lambda>i. \<not> IsClosed (g ! i)) [0..<length g])) \<and>
     (\<forall>j < hd (filter (\<lambda>i. \<not> IsClosed (g ! i)) [0..<length g]). \<not> \<not> IsClosed (g ! j))"
    by (rule hd_filter_upt [OF ne])
  then show ?thesis unfolding active_days_open by blast
qed

lemma sum_list_update_add:
  fixes xs :: "rat list"
  shows "k < length xs \<Longrightarrow> sum_list (xs[k := xs ! k + a]) = sum_list xs + a"
proof (induction xs arbitrary: k)
  case Nil
  then show ?case by simp
next
  case (Cons x xs)
  then show ?case by (cases k) simp_all
qed


section \<open>Rows of the output of one month\<close>

lemma percentage_col_closed:
  "i < length g \<Longrightarrow> IsClosed (g ! i) \<Longrightarrow> percentage_col g ! i = 0"
  by (simp add: percentage_col_nth)

lemma adjusted_cases:
  "adjusted g = percentage_col g \<or>
   ((\<exists>r\<in>set g. \<not> IsClosed r) \<and> \<not> isclose (total_percentage g) 1 \<and>
    adjusted g = (percentage_col g)[hd (active_days g) :=
       percentage_col g ! hd (active_days g) + (1 - total_percentage g)])"
proof (cases "\<not> isclose (total_percentage g) 1 \<and> active_days g \<noteq> []")
  case True
  then have "\<exists>r\<in>set g. \<not> IsClosed r" by (simp only: active_days_nonempty)
  with True show ?thesis by (simp add: adjusted_def Let_def)
next
  case False
  then have "adjusted g = percentage_col g" by (auto simp: adjusted_def Let_def)
  then show ?thesis by blast
qed

lemma adjusted_closed_zero:
  assumes "i < length g" "IsClosed (g ! i)"
  shows "adjusted g ! i = 0"
proof -
  from adjusted_cases [of g] show ?thesis
  proof
    assume "adjusted g = percentage_col g"
    with assms show ?thesis by (simp add: percentage_col_closed)
  next
    assume a: "(\<exists>r\<in>set g. \<not> IsClosed r) \<and> \<not> isclose (total_percentage g) 1 \<and>
      adjusted g = (percentage_col g)[hd (active_days g) :=
       percentage_col g ! hd (active_days g) + (1 - total_percentage g)]"
    then have "\<not> IsClosed (g ! hd (active_days g))" using first_active by blast
    with assms(2) have "hd (active_days g) \<noteq> i" by auto
    with a assms show ?thesis by (simp add: percentage_col_closed)
  qed
qed

lemma adjusted_sum_one:
  assumes "g \<noteq> []" "length g \<le> 31" "\<exists>r\<in>set g. \<not> IsClosed r"
  shows "sum_list (adjusted g) = 1"
proof (cases "isclose (total_percentage g) 1")
  case True
  then have "total_percentage g = 1" using isclose_total(1) [OF assms(1,2)] by blast
  moreover from True have "adjusted g = percentage_col g" by (simp add: adjusted_def)
  ultimately show ?thesis by (simp add: total_percentage_def)
next
  case False
  from assms(3) have ne: "active_days g \<noteq> []" by (simp only: active_days_nonempty)
  from assms(3) have k: "hd (active_days g) < length (percentage_col g)"
    using first_active by simp
  from False ne have "adjusted g = (percentage_col g)[hd (active_days g) :=
       percentage_col g ! hd (active_days g) + (1 - total_percentage g)]"
    by (simp add: adjusted_def Let_def)
  then have "sum_list (adjusted g) = sum_list (percentage_col g) + (1 - total_percentage g)"
    using sum_list_update_add [OF k] by simp
  then show ?thesis by (simp add: total_percentage_def)
qed

lemma month_final_percentage: "map percentage (month_final g) = adjusted g"
  unfolding month_final_def by (rule nth_equalityI) simp_all

lemma month_final_odate: "map odate (month_final g) = map date g"
  unfolding month_final_def by (rule nth_equalityI) simp_all

lemma month_final_nth:
  "i < length g \<Longrightarrow> month_final g ! i =
     \<lparr>seasonality_type = ''Fair share'', odate = date (g ! i), percentage = adjusted g ! i\<rparr>"
  by (simp add: month_final_def)

lemma length_month_final [simp]: "length (month_final g) = length g"
  by (simp add: month_final_def)

lemma all_closed_zero:
  assumes "\<forall>r\<in>set g. IsClosed r"
  shows "percentage_col g = replicate (length g) 0" "adjusted g = percentage_col g"
proof -
  show pc: "percentage_col g = replicate (length g) 0"
    using assms by (intro nth_equalityI) (simp_all add: percentage_col_closed)
  from assms have "active_days g = []" using active_days_nonempty [of g] by blast
  then show "adjusted g = percentage_col g" by (simp add: adjusted_def Let_def)
qed

lemma in_concat_groups:
  assumes "r \<in> set (concat (map (\<lambda>(month, grp). month_final grp) (groupby_month rows)))"
  shows "\<exists>k g i. (k, g) \<in> set (groupby_month rows) \<and> i < length g \<and> r = month_final g ! i"
proof -
  from assms obtain k g where kg: "(k, g) \<in> set (groupby_month rows)" and "r \<in> set (month_final g)"
    by auto
  then obtain i where "i < length (month_final g)" "r = month_final g ! i"
    by (metis in_set_conv_nth)
  then have "i < length g" "r = month_final g ! i" by simp_all
  with kg show ?thesis by blast
qed

section \<open>Closed days without a preceding open day\<close>











section \<open>Dates of the output\<close>



lemma start_of_current_month_valid:
  "valid_date d \<Longrightarrow> valid_date (start_of_current_month d) \<and> start_of_current_month d \<le> d"
  using monthrange_bounds [of "year d" "month d"]
  by (cases d) (auto simp: valid_date_def start_of_current_month_def year_def month_def day_def)

lemma date_range_length:
  assumes "valid_date s"
  shows "length (date_range s e) = card {d. valid_date d \<and> s \<le> d \<and> d \<le> e}"
proof -
  have "distinct (date_range s e)" using date_range_sorted [of s e] by (simp add: strict_sorted_iff)
  then have "card (set (date_range s e)) = length (date_range s e)" by (rule distinct_card)
  then show ?thesis by (simp add: date_range_set [OF assms])
qed

lemma final_df_dates:
  assumes "final_df s e cps cur = Inr out"
  shows "map odate out = filter (\<lambda>d. cur \<le> d) (date_range s e)"
proof -
  let ?rows = "remaining s e cps cur"
  from assms have out: "out = concat (map (\<lambda>(month, grp). month_final grp) (groupby_month ?rows))"
    by (auto simp: final_df_def split: if_splits)
  have "map odate out = concat (map (\<lambda>kg. map odate (month_final (snd kg))) (groupby_month ?rows))"
    unfolding out by (simp add: map_concat comp_def case_prod_unfold)
  also have "\<dots> = concat (map (\<lambda>kg. map date (snd kg)) (groupby_month ?rows))"
    by (simp add: month_final_odate)
  also have "\<dots> = map date (concat (map snd (groupby_month ?rows)))"
    by (simp add: map_concat comp_def)
  also have "\<dots> = map date ?rows"
    by (simp add: groupby_month_concat [OF remaining_keys_sorted])
  finally show ?thesis by (simp add: remaining_dates)
qed

section \<open>Claims about one month\<close>

text \<open>
  C1: for every month group of the requested range that has at least one open day, the
  output percentages of that month sum to 1 within 1e-9 (in exact arithmetic the sum is 1).
\<close>

theorem month_sum_invariant:
  assumes "valid_date range_start"
    and "(period, grp) \<in> set (groupby_month (remaining range_start range_end closed_periods current_date))"
    and "\<exists>r\<in>set grp. \<not> IsClosed r"
  shows "\<bar>sum_list (map percentage (month_final grp)) - 1\<bar> \<le> 1 / 10 ^ 9"
proof -
  from assms(2) have "grp \<noteq> []" by (rule groupby_month_nonempty)
  moreover from assms(1,2) have "length grp \<le> 31" by (rule month_group_length)
  ultimately have "sum_list (adjusted grp) = 1" using assms(3) by (rule adjusted_sum_one)
  then show ?thesis by (simp add: month_final_percentage)
qed

theorem month_sum_invariant_witness:
  "valid_date (2024, 2, 27) \<and>
   ((2024, 2),
     [\<lparr>date = (2024, 2, 27), IsClosed = True, IsTodayOrAfter = True\<rparr>,
      \<lparr>date = (2024, 2, 28), IsClosed = True, IsTodayOrAfter = True\<rparr>,
      \<lparr>date = (2024, 2, 29), IsClosed = False, IsTodayOrAfter = True\<rparr>])
    \<in> set (groupby_month (remaining (2024, 2, 27) (2024, 3, 2)
     [\<lparr>pstart = (2024, 2, 27), pend = (2024, 2, 28), holidays = []\<rparr>,
      \<lparr>pstart = (2024, 3, 1), pend = (2024, 3, 2), holidays = []\<rparr>] (2024, 2, 27))) \<and>
   \<not> IsClosed ([\<lparr>date = (2024, 2, 27), IsClosed = True, IsTodayOrAfter = True\<rparr>,
      \<lparr>date = (2024, 2, 28), IsClosed = True, IsTodayOrAfter = True\<rparr>,
      \<lparr>date = (2024, 2, 29), IsClosed = False, IsTodayOrAfter = True\<rparr>] ! 2) \<and>
   \<bar>sum_list (map percentage (month_final
     [\<lparr>date = (2024, 2, 27), IsClosed = True, IsTodayOrAfter = True\<rparr>,
      \<lparr>date = (2024, 2, 28), IsClosed = True, IsTodayOrAfter = True\<rparr>,
      \<lparr>date = (2024, 2, 29), IsClosed = False, IsTodayOrAfter = True\<rparr>])) - 1\<bar> \<le> 1 / 10 ^ 9"
proof -
  have v: "valid_date (2024, 2, 27)" by code_simp
  have m: "((2024, 2),
     [\<lparr>date = (2024, 2, 27), IsClosed = True, IsTodayOrAfter = True\<rparr>,
      \<lparr>date = (2024, 2, 28), IsClosed = True, IsTodayOrAfter = True\<rparr>,
      \<lparr>date = (2024, 2, 29), IsClosed = False, IsTodayOrAfter = True\<rparr>])
    \<in> set (groupby_month (remaining (2024, 2, 27) (2024, 3, 2)
     [\<lparr>pstart = (2024, 2, 27), pend = (2024, 2, 28), holidays = []\<rparr>,
      \<lparr>pstart = (2024, 3, 1), pend = (2024, 3, 2), holidays = []\<rparr>] (2024, 2, 27)))"
    by code_simp
  have o: "\<exists>r\<in>set [\<lparr>date = (2024, 2, 27), IsClosed = True, IsTodayOrAfter = True\<rparr>,
      \<lparr>date = (2024, 2, 28), IsClosed = True, IsTodayOrAfter = True\<rparr>,
      \<lparr>date = (2024, 2, 29), IsClosed = False, IsTodayOrAfter = True\<rparr>]. \<not> IsClosed r"
    by simp
  from month_sum_invariant [OF v m o] v m show ?thesis by simp
qed

text \<open>
  C2: with \<open>u = 1 / D\<close>, \<open>D\<close> the number of days of the group (open and closed), the
  weight of an open day before the correction, both in the column FinalPercentage and in
  the column percentage, is \<open>u\<close> plus \<open>u\<close> times the number of closed days of the group
  whose nearest preceding open day, scanning backward, is that day.
\<close>

theorem final_weight_before_correction:
  assumes "i < length grp" and "\<not> IsClosed (grp ! i)"
  shows "FinalPercentage grp ! i =
           1 / of_nat (length grp) + 1 / of_nat (length grp) * of_nat (rolled_onto grp i) \<and>
         percentage_col grp ! i =
           1 / of_nat (length grp) + 1 / of_nat (length grp) * of_nat (rolled_onto grp i)"
proof -
  from assms(1) have "grp \<noteq> []" by auto
  then have D: "N_plus_C grp = length grp" by (rule N_plus_C_nonempty)
  from assms show ?thesis
    by (simp add: FinalPercentage_conv percentage_col_conv D)
qed

theorem final_weight_before_correction_witness:
  "(0::nat) < length [\<lparr>date = (2024, 2, 27), IsClosed = False, IsTodayOrAfter = True\<rparr>,
      \<lparr>date = (2024, 2, 28), IsClosed = True, IsTodayOrAfter = True\<rparr>,
      \<lparr>date = (2024, 2, 29), IsClosed = True, IsTodayOrAfter = True\<rparr>] \<and>
   \<not> IsClosed ([\<lparr>date = (2024, 2, 27), IsClosed = False, IsTodayOrAfter = True\<rparr>,
      \<lparr>date = (2024, 2, 28), IsClosed = True, IsTodayOrAfter = True\<rparr>,
      \<lparr>date = (2024, 2, 29), IsClosed = True, IsTodayOrAfter = True\<rparr>] ! 0) \<and>
   rolled_onto [\<lparr>date = (2024, 2, 27), IsClosed = False, IsTodayOrAfter = True\<rparr>,
      \<lparr>date = (2024, 2, 28), IsClosed = True, IsTodayOrAfter = True\<rparr>,
      \<lparr>date = (2024, 2, 29), IsClosed = True, IsTodayOrAfter = True\<rparr>] 0 = 2 \<and>
   FinalPercentage [\<lparr>date = (2024, 2, 27), IsClosed = False, IsTodayOrAfter = True\<rparr>,
      \<lparr>date = (2024, 2, 28), IsClosed = True, IsTodayOrAfter = True\<rparr>,
      \<lparr>date = (2024, 2, 29), IsClosed = True, IsTodayOrAfter = True\<rparr>] ! 0 = 1 / 3 + 1 / 3 * 2"
proof -
  have l: "(0::nat) < length [\<lparr>date = (2024, 2, 27), IsClosed = False, IsTodayOrAfter = True\<rparr>,
      \<lparr>date = (2024, 2, 28), IsClosed = True, IsTodayOrAfter = True\<rparr>,
      \<lparr>date = (2024, 2, 29), IsClosed = True, IsTodayOrAfter = True\<rparr>]" by simp
  have o: "\<not> IsClosed ([\<lparr>date = (2024, 2, 27), IsClosed = False, IsTodayOrAfter = True\<rparr>,
      \<lparr>date = (2024, 2, 28), IsClosed = True, IsTodayOrAfter = True\<rparr>,
      \<lparr>date = (2024, 2, 29), IsClosed = True, IsTodayOrAfter = True\<rparr>] ! 0)" by simp
  have r: "rolled_onto [\<lparr>date = (2024, 2, 27), IsClosed = False, IsTodayOrAfter = True\<rparr>,
      \<lparr>date = (2024, 2, 28), IsClosed = True, IsTodayOrAfter = True\<rparr>,
      \<lparr>date = (2024, 2, 29), IsClosed = True, IsTodayOrAfter = True\<rparr>] 0 = 2" by code_simp
  from final_weight_before_correction [OF l o] l o r show ?thesis by simp
qed

text \<open>
  C4: in a month group, when the sum of the weights deviates from 1 by more than 1e-9 and
  the month has an open day, \<open>1 - sum\<close> is added to the weight of the first open day in
  date order and nothing else changes; a sum within 1e-9 of 1 is left alone; in a month
  without an open day nothing is adjusted and the sum stays 0.  The program decides with
  \<^verbatim>\<open>np.isclose\<close>, whose tolerance is \<open>1e-8 + 1e-5\<close>: on a month group, of at most 31 days,
  the two tests agree, because a sum that is not 1 is off by at least 1/31.
\<close>

theorem rounding_correction:
  assumes "valid_date range_start"
    and "(period, grp) \<in> set (groupby_month (remaining range_start range_end closed_periods current_date))"
  shows "((\<exists>r\<in>set grp. \<not> IsClosed r) \<and> \<bar>total_percentage grp - 1\<bar> > 1 / 10 ^ 9 \<longrightarrow>
            (\<exists>k<length grp. \<not> IsClosed (grp ! k) \<and> (\<forall>j<k. IsClosed (grp ! j)) \<and>
               adjusted grp = (percentage_col grp)
                 [k := percentage_col grp ! k + (1 - total_percentage grp)])) \<and>
         (\<bar>total_percentage grp - 1\<bar> \<le> 1 / 10 ^ 9 \<longrightarrow> adjusted grp = percentage_col grp) \<and>
         ((\<forall>r\<in>set grp. IsClosed r) \<longrightarrow>
            adjusted grp = percentage_col grp \<and> sum_list (adjusted grp) = 0)"
proof (intro conjI impI)
  from assms(2) have ne: "grp \<noteq> []" by (rule groupby_month_nonempty)
  from assms(1,2) have len: "length grp \<le> 31" by (rule month_group_length)
  {
    assume a: "(\<exists>r\<in>set grp. \<not> IsClosed r) \<and> \<bar>total_percentage grp - 1\<bar> > 1 / 10 ^ 9"
    then have "total_percentage grp \<noteq> 1" by auto
    then have nc: "\<not> isclose (total_percentage grp) 1"
      using isclose_total(1) [OF ne len] by blast
    from a have act: "active_days grp \<noteq> []" by (simp only: active_days_nonempty)
    from nc act have "adjusted grp = (percentage_col grp)[hd (active_days grp) :=
         percentage_col grp ! hd (active_days grp) + (1 - total_percentage grp)]"
      by (simp add: adjusted_def Let_def)
    moreover from a have "hd (active_days grp) < length grp \<and>
        \<not> IsClosed (grp ! hd (active_days grp)) \<and>
        (\<forall>j < hd (active_days grp). IsClosed (grp ! j))"
      using first_active by blast
    ultimately show "\<exists>k<length grp. \<not> IsClosed (grp ! k) \<and> (\<forall>j<k. IsClosed (grp ! j)) \<and>
               adjusted grp = (percentage_col grp)
                 [k := percentage_col grp ! k + (1 - total_percentage grp)]"
      by blast
  }
  {
    assume "\<bar>total_percentage grp - 1\<bar> \<le> 1 / 10 ^ 9"
    then have "total_percentage grp = 1" using isclose_total(2) [OF ne len] by blast
    then have "isclose (total_percentage grp) 1" using isclose_total(1) [OF ne len] by blast
    then show "adjusted grp = percentage_col grp" by (simp add: adjusted_def)
  }
  {
    assume c: "\<forall>r\<in>set grp. IsClosed r"
    then show "adjusted grp = percentage_col grp" by (rule all_closed_zero(2))
    with all_closed_zero(1) [OF c] show "sum_list (adjusted grp) = 0"
      by (simp add: sum_list_replicate)
  }
qed

theorem rounding_correction_witness:
  "valid_date (2024, 2, 27) \<and>
   ((2024, 2),
     [\<lparr>date = (2024, 2, 27), IsClosed = True, IsTodayOrAfter = True\<rparr>,
      \<lparr>date = (2024, 2, 28), IsClosed = True, IsTodayOrAfter = True\<rparr>,
      \<lparr>date = (2024, 2, 29), IsClosed = False, IsTodayOrAfter = True\<rparr>])
    \<in> set (groupby_month (remaining (2024, 2, 27) (2024, 3, 2)
     [\<lparr>pstart = (2024, 2, 27), pend = (2024, 2, 28), holidays = []\<rparr>,
      \<lparr>pstart = (2024, 3, 1), pend = (2024, 3, 2), holidays = []\<rparr>] (2024, 2, 27))) \<and>
   \<not> IsClosed ([\<lparr>date = (2024, 2, 27), IsClosed = True, IsTodayOrAfter = True\<rparr>,
      \<lparr>date = (2024, 2, 28), IsClosed = True, IsTodayOrAfter = True\<rparr>,
      \<lparr>date = (2024, 2, 29), IsClosed = False, IsTodayOrAfter = True\<rparr>] ! 2) \<and>
   \<bar>total_percentage [\<lparr>date = (2024, 2, 27), IsClosed = True, IsTodayOrAfter = True\<rparr>,
      \<lparr>date = (2024, 2, 28), IsClosed = True, IsTodayOrAfter = True\<rparr>,
      \<lparr>date = (2024, 2, 29), IsClosed = False, IsTodayOrAfter = True\<rparr>] - 1\<bar> > 1 / 10 ^ 9 \<and>
   adjusted [\<lparr>date = (2024, 2, 27), IsClosed = True, IsTodayOrAfter = True\<rparr>,
      \<lparr>date = (2024, 2, 28), IsClosed = True, IsTodayOrAfter = True\<rparr>,
      \<lparr>date = (2024, 2, 29), IsClosed = False, IsTodayOrAfter = True\<rparr>] = [0, 0, 1] \<and>
   ((2024, 3),
     [\<lparr>date = (2024, 3, 1), IsClosed = True, IsTodayOrAfter = True\<rparr>,
      \<lparr>date = (2024, 3, 2), IsClosed = True, IsTodayOrAfter = True\<rparr>])
    \<in> set (groupby_month (remaining (2024, 2, 27) (2024, 3, 2)
     [\<lparr>pstart = (2024, 2, 27), pend = (2024, 2, 28), holidays = []\<rparr>,
      \<lparr>pstart = (2024, 3, 1), pend = (2024, 3, 2), holidays = []\<rparr>] (2024, 2, 27))) \<and>
   IsClosed ([\<lparr>date = (2024, 3, 1), IsClosed = True, IsTodayOrAfter = True\<rparr>,
      \<lparr>date = (2024, 3, 2), IsClosed = True, IsTodayOrAfter = True\<rparr>] ! 0) \<and> IsClosed ([\<lparr>date = (2024, 3, 1), IsClosed = True, IsTodayOrAfter = True\<rparr>,
      \<lparr>date = (2024, 3, 2), IsClosed = True, IsTodayOrAfter = True\<rparr>] ! 1) \<and>
   sum_list (adjusted [\<lparr>date = (2024, 3, 1), IsClosed = True, IsTodayOrAfter = True\<rparr>,
      \<lparr>date = (2024, 3, 2), IsClosed = True, IsTodayOrAfter = True\<rparr>]) = 0"
proof -
  have v: "valid_date (2024, 2, 27)" by code_simp
  have m1: "((2024, 2),
     [\<lparr>date = (2024, 2, 27), IsClosed = True, IsTodayOrAfter = True\<rparr>,
      \<lparr>date = (2024, 2, 28), IsClosed = True, IsTodayOrAfter = True\<rparr>,
      \<lparr>date = (2024, 2, 29), IsClosed = False, IsTodayOrAfter = True\<rparr>])
    \<in> set (groupby_month (remaining (2024, 2, 27) (2024, 3, 2)
     [\<lparr>pstart = (2024, 2, 27), pend = (2024, 2, 28), holidays = []\<rparr>,
      \<lparr>pstart = (2024, 3, 1), pend = (2024, 3, 2), holidays = []\<rparr>] (2024, 2, 27)))"
    by code_simp
  have m2: "((2024, 3),
     [\<lparr>date = (2024, 3, 1), IsClosed = True, IsTodayOrAfter = True\<rparr>,
      \<lparr>date = (2024, 3, 2), IsClosed = True, IsTodayOrAfter = True\<rparr>])
    \<in> set (groupby_month (remaining (2024, 2, 27) (2024, 3, 2)
     [\<lparr>pstart = (2024, 2, 27), pend = (2024, 2, 28), holidays = []\<rparr>,
      \<lparr>pstart = (2024, 3, 1), pend = (2024, 3, 2), holidays = []\<rparr>] (2024, 2, 27)))"
    by code_simp
  have t: "\<bar>total_percentage [\<lparr>date = (2024, 2, 27), IsClosed = True, IsTodayOrAfter = True\<rparr>,
      \<lparr>date = (2024, 2, 28), IsClosed = True, IsTodayOrAfter = True\<rparr>,
      \<lparr>date = (2024, 2, 29), IsClosed = False, IsTodayOrAfter = True\<rparr>] - 1\<bar> > 1 / 10 ^ 9"
    by code_simp
  have a: "adjusted [\<lparr>date = (2024, 2, 27), IsClosed = True, IsTodayOrAfter = True\<rparr>,
      \<lparr>date = (2024, 2, 28), IsClosed = True, IsTodayOrAfter = True\<rparr>,
      \<lparr>date = (2024, 2, 29), IsClosed = False, IsTodayOrAfter = True\<rparr>] = [0, 0, 1]"
    by code_simp
  have c: "\<forall>r\<in>set [\<lparr>date = (2024, 3, 1), IsClosed = True, IsTodayOrAfter = True\<rparr>,
      \<lparr>date = (2024, 3, 2), IsClosed = True, IsTodayOrAfter = True\<rparr>]. IsClosed r"
    by simp
  from rounding_correction [OF v m2] c
  have "sum_list (adjusted [\<lparr>date = (2024, 3, 1), IsClosed = True, IsTodayOrAfter = True\<rparr>,
      \<lparr>date = (2024, 3, 2), IsClosed = True, IsTodayOrAfter = True\<rparr>]) = 0"
    by blast
  with v m1 m2 t a show ?thesis by simp
qed

text \<open>
  C6: every row of the output whose date lies in a closed period has percentage exactly 0,
  for every range and every list of closed periods.
\<close>

theorem closed_day_zero:
  assumes "final_df range_start range_end closed_periods current_date = Inr out"
    and "r \<in> set out"
    and "is_closed (odate r) closed_periods"
  shows "percentage r = 0"
proof -
  let ?rows = "remaining range_start range_end closed_periods current_date"
  from assms(1) have "out = concat (map (\<lambda>(month, grp). month_final grp) (groupby_month ?rows))"
    by (auto simp: final_df_def split: if_splits)
  with assms(2) obtain k g i where kg: "(k, g) \<in> set (groupby_month ?rows)"
    and i: "i < length g" and r: "r = month_final g ! i"
    using in_concat_groups by blast
  from kg have "g = filter (\<lambda>x. to_period_M (date x) = k) ?rows"
    by (simp add: groupby_month_member)
  with i have "g ! i \<in> set ?rows" by (metis filter_is_subset nth_mem subsetD)
  then have "IsClosed (g ! i) = is_closed (date (g ! i)) closed_periods"
    by (rule remaining_IsClosed)
  with assms(3) r i have "IsClosed (g ! i)" by (simp add: month_final_nth)
  with i have "adjusted g ! i = 0" by (rule adjusted_closed_zero)
  with r i show ?thesis by (simp add: month_final_nth)
qed

theorem closed_day_zero_witness:
  "final_df (2024, 2, 27) (2024, 3, 2)
     [\<lparr>pstart = (2024, 2, 27), pend = (2024, 2, 28), holidays = []\<rparr>,
      \<lparr>pstart = (2024, 3, 1), pend = (2024, 3, 2), holidays = []\<rparr>] (2024, 2, 27) =
   Inr [\<lparr>seasonality_type = ''Fair share'', odate = (2024, 2, 27), percentage = 0\<rparr>,
        \<lparr>seasonality_type = ''Fair share'', odate = (2024, 2, 28), percentage = 0\<rparr>,
        \<lparr>seasonality_type = ''Fair share'', odate = (2024, 2, 29), percentage = 1\<rparr>,
        \<lparr>seasonality_type = ''Fair share'', odate = (2024, 3, 1), percentage = 0\<rparr>,
        \<lparr>seasonality_type = ''Fair share'', odate = (2024, 3, 2), percentage = 0\<rparr>] \<and>
   is_closed (2024, 2, 28)
     [\<lparr>pstart = (2024, 2, 27), pend = (2024, 2, 28), holidays = []\<rparr>,
      \<lparr>pstart = (2024, 3, 1), pend = (2024, 3, 2), holidays = []\<rparr>] \<and>
   percentage \<lparr>seasonality_type = ''Fair share'', odate = (2024, 2, 28), percentage = 0\<rparr> = 0"
proof -
  have f: "final_df (2024, 2, 27) (2024, 3, 2)
     [\<lparr>pstart = (2024, 2, 27), pend = (2024, 2, 28), holidays = []\<rparr>,
      \<lparr>pstart = (2024, 3, 1), pend = (2024, 3, 2), holidays = []\<rparr>] (2024, 2, 27) =
   Inr [\<lparr>seasonality_type = ''Fair share'', odate = (2024, 2, 27), percentage = 0\<rparr>,
        \<lparr>seasonality_type = ''Fair share'', odate = (2024, 2, 28), percentage = 0\<rparr>,
        \<lparr>seasonality_type = ''Fair share'', odate = (2024, 2, 29), percentage = 1\<rparr>,
        \<lparr>seasonality_type = ''Fair share'', odate = (2024, 3, 1), percentage = 0\<rparr>,
        \<lparr>seasonality_type = ''Fair share'', odate = (2024, 3, 2), percentage = 0\<rparr>]"
    by code_simp
  have c: "is_closed (odate \<lparr>seasonality_type = ''Fair share'', odate = (2024, 2, 28), percentage = 0\<rparr>)
     [\<lparr>pstart = (2024, 2, 27), pend = (2024, 2, 28), holidays = []\<rparr>,
      \<lparr>pstart = (2024, 3, 1), pend = (2024, 3, 2), holidays = []\<rparr>]"
    by simp
  from closed_day_zero [OF f _ c] f c show ?thesis by simp
qed






section \<open>Claims about the whole range\<close>

text \<open>
  C9: when the end of the range is before its start, nothing is computed and no output
  table exists: the script only shows its information message.  This holds for the
  comparison the script makes (end of the end month against the first day of the current
  month), and, with the two ends derived as the script derives them, also when the end of
  the end month is before the current date.
\<close>

theorem final_df_invalid_range:
  "(range_end < range_start \<longrightarrow>
      final_df range_start range_end closed_periods current_date = Inl Info_set_end_month) \<and>
   (valid_date current_date \<and> end_of_end_month end_year end_month < current_date \<longrightarrow>
      final_df (start_of_current_month current_date) (end_of_end_month end_year end_month)
        closed_periods current_date = Inl Info_set_end_month)"
proof (intro conjI impI)
  assume "range_end < range_start"
  then show "final_df range_start range_end closed_periods current_date = Inl Info_set_end_month"
    by (simp add: final_df_def)
next
  assume a: "valid_date current_date \<and> end_of_end_month end_year end_month < current_date"
  obtain y m d where c: "current_date = (y, m, d)" by (cases current_date) auto
  from a have "end_of_end_month end_year end_month < start_of_current_month current_date"
    by (auto simp: c end_of_end_month_def start_of_current_month_def valid_date_def
        year_def month_def day_def)
  then show "final_df (start_of_current_month current_date) (end_of_end_month end_year end_month)
        closed_periods current_date = Inl Info_set_end_month"
    by (simp add: final_df_def)
qed

theorem final_df_invalid_range_witness:
  "((2024, 1, 31) < ((2024, 2, 1) :: date) \<and>
      final_df (2024, 2, 1) (2024, 1, 31) [] (2024, 2, 10) = Inl Info_set_end_month) \<and>
   (valid_date (2024, 2, 10) \<and> end_of_end_month 2024 1 < (2024, 2, 10) \<and>
      final_df (start_of_current_month (2024, 2, 10)) (end_of_end_month 2024 1) [] (2024, 2, 10)
        = Inl Info_set_end_month)"
proof -
  have h1: "(2024, 1, 31) < ((2024, 2, 1) :: date)" by simp
  have h2: "valid_date (2024, 2, 10) \<and> end_of_end_month 2024 1 < (2024, 2, 10)"
    by (simp add: valid_date_def end_of_end_month_def year_def month_def day_def monthrange_def isleap_def)
  from final_df_invalid_range [of "(2024, 1, 31)" "(2024, 2, 1)" "[]" "(2024, 2, 10)" 2024 1] h1 h2
  show ?thesis by blast
qed

text \<open>
  C10: every group that the per-month loop visits is non-empty, so \<open>N + C\<close> is at least 1,
  the divisor \<open>N_plus_C\<close> is \<open>N + C\<close> (the guard value 1 is never taken) and the
  division by it is not a division by zero.
\<close>

theorem month_group_nonempty:
  assumes "(period, grp) \<in> set (groupby_month (remaining range_start range_end closed_periods current_date))"
  shows "grp \<noteq> [] \<and> 1 \<le> N grp + C grp \<and> N_plus_C grp = N grp + C grp \<and>
         (of_nat (N_plus_C grp) :: rat) \<noteq> 0"
proof -
  from assms have ne: "grp \<noteq> []" by (rule groupby_month_nonempty)
  then have "1 \<le> length grp" by (cases grp) simp_all
  with ne show ?thesis by (simp add: N_plus_C_length N_plus_C_def)
qed

theorem month_group_nonempty_witness:
  "((2024, 2), [\<lparr>date = (2024, 2, 1), IsClosed = False, IsTodayOrAfter = True\<rparr>,
                \<lparr>date = (2024, 2, 2), IsClosed = False, IsTodayOrAfter = True\<rparr>])
     \<in> set (groupby_month (remaining (2024, 1, 1) (2024, 2, 2) [] (2024, 1, 31))) \<and>
   N_plus_C [\<lparr>date = (2024, 2, 1), IsClosed = False, IsTodayOrAfter = True\<rparr>,
             \<lparr>date = (2024, 2, 2), IsClosed = False, IsTodayOrAfter = True\<rparr>] = 2"
proof -
  have h: "((2024, 2), [\<lparr>date = (2024, 2, 1), IsClosed = False, IsTodayOrAfter = True\<rparr>,
                \<lparr>date = (2024, 2, 2), IsClosed = False, IsTodayOrAfter = True\<rparr>])
     \<in> set (groupby_month (remaining (2024, 1, 1) (2024, 2, 2) [] (2024, 1, 31)))"
    by code_simp
  from month_group_nonempty [OF h] h show ?thesis by (simp add: N_def C_def)
qed

text \<open>
  C5: with the range generated from the first day of the month of the current date, as the
  script does, and cut at the current date, the output has one row for each date from the
  current date to the end of the range, in ascending date order; it is the concatenation of
  the results of the month groups, the groups in ascending order of their month and each
  group holding the days of its month in ascending date order.
\<close>

theorem output_order_and_length:
  assumes "valid_date current_date"
    and "start_of_current_month current_date \<le> range_end"
  shows "\<exists>out. final_df (start_of_current_month current_date) range_end closed_periods current_date = Inr out \<and>
           length out = length (date_range current_date range_end) \<and>
           length out = card {d. valid_date d \<and> current_date \<le> d \<and> d \<le> range_end} \<and>
           map odate out = date_range current_date range_end \<and>
           sorted_wrt (<) (map odate out) \<and>
           out = concat (map (\<lambda>(period, grp). month_final grp)
                   (groupby_month (remaining (start_of_current_month current_date) range_end
                      closed_periods current_date))) \<and>
           sorted_wrt (<) (map fst (groupby_month (remaining (start_of_current_month current_date)
                      range_end closed_periods current_date))) \<and>
           (\<forall>(period, grp) \<in> set (groupby_month (remaining (start_of_current_month current_date)
                      range_end closed_periods current_date)).
               map odate (month_final grp) = map date grp \<and>
               sorted_wrt (<) (map date grp) \<and>
               (\<forall>r\<in>set grp. to_period_M (date r) = period))"
proof -
  let ?s = "start_of_current_month current_date"
  let ?rows = "remaining ?s range_end closed_periods current_date"
  let ?out = "concat (map (\<lambda>(period, grp). month_final grp) (groupby_month ?rows))"
  from assms(2) have f: "final_df ?s range_end closed_periods current_date = Inr ?out"
    by (simp add: final_df_def)
  from start_of_current_month_valid [OF assms(1)]
  have vs: "valid_date ?s" and le: "?s \<le> current_date" by simp_all
  have d: "map odate ?out = date_range current_date range_end"
    using final_df_dates [OF f] date_range_filter [OF vs assms(1) le] by simp
  then have l: "length ?out = length (date_range current_date range_end)"
    by (metis length_map)
  have c: "length ?out = card {d. valid_date d \<and> current_date \<le> d \<and> d \<le> range_end}"
    using l date_range_length [OF assms(1)] by simp
  have so: "sorted_wrt (<) (map odate ?out)" unfolding d by (rule date_range_sorted)
  have grp: "map odate (month_final g) = map date g \<and> sorted_wrt (<) (map date g) \<and>
      (\<forall>r\<in>set g. to_period_M (date r) = k)" if "(k, g) \<in> set (groupby_month ?rows)" for k g
  proof -
    from that have g: "g = filter (\<lambda>r. to_period_M (date r) = k) ?rows"
      by (simp add: groupby_month_member)
    have "sorted_wrt (<) (map date g)"
      unfolding g using remaining_dates_sorted [of ?s range_end closed_periods current_date]
      by (simp add: sorted_wrt_map sorted_wrt_filter)
    moreover have "\<forall>r\<in>set g. to_period_M (date r) = k" unfolding g by simp
    ultimately show ?thesis by (simp add: month_final_odate)
  qed
  from f l c d so grp groupby_month_keys_sorted [of ?rows] show ?thesis by auto
qed

theorem output_order_and_length_witness:
  "valid_date (2024, 2, 28) \<and> start_of_current_month (2024, 2, 28) \<le> (2024, 3, 1) \<and>
   final_df (start_of_current_month (2024, 2, 28)) (2024, 3, 1) [] (2024, 2, 28) =
     Inr [\<lparr>seasonality_type = ''Fair share'', odate = (2024, 2, 28), percentage = 1 / 2\<rparr>,
        \<lparr>seasonality_type = ''Fair share'', odate = (2024, 2, 29), percentage = 1 / 2\<rparr>,
        \<lparr>seasonality_type = ''Fair share'', odate = (2024, 3, 1), percentage = 1\<rparr>] \<and>
   date_range (2024, 2, 28) (2024, 3, 1) = [(2024, 2, 28), (2024, 2, 29), (2024, 3, 1)]"
proof -
  have v: "valid_date (2024, 2, 28)" by code_simp
  have h: "start_of_current_month (2024, 2, 28) \<le> (2024, 3, 1)" by code_simp
  have f: "final_df (start_of_current_month (2024, 2, 28)) (2024, 3, 1) [] (2024, 2, 28) =
     Inr [\<lparr>seasonality_type = ''Fair share'', odate = (2024, 2, 28), percentage = 1 / 2\<rparr>,
        \<lparr>seasonality_type = ''Fair share'', odate = (2024, 2, 29), percentage = 1 / 2\<rparr>,
        \<lparr>seasonality_type = ''Fair share'', odate = (2024, 3, 1), percentage = 1\<rparr>]"
    by code_simp
  from output_order_and_length [OF v h, of "[]"] f
  have "date_range (2024, 2, 28) (2024, 3, 1) = [(2024, 2, 28), (2024, 2, 29), (2024, 3, 1)]"
    by auto
  with v h f show ?thesis by simp
qed



end
